theory Spec2Isabelle
  imports Main "HOL-Library.Word"
begin

section \<open>Acceptors of compLex as state machines\<close>

text \<open>
  The Go source declares
  \<^verbatim>\<open>Acceptor func(rune) bool\<close> and \<^verbatim>\<open>state func(rune) (bool, state)\<close>.
  An acceptor is a closure: calling it may change the variables it captured, and the
  next call sees the change. The embedding passes that hidden state explicitly: a call
  returns its outcome together with the acceptor as it is after the call.

  \<^item> A \<open>rune\<close> is Go's \<open>int32\<close>; only equality on runes is used.
  \<^item> A call either returns a boolean or panics. A panic carries its payload: the
    run-time error of calling a nil function value, the run-time error of indexing a
    slice out of range, or the error value handed to \<open>panic(err)\<close>.
  \<^item> An \<open>Acceptor\<close> value is nil or a function. The type is coinductive, so that
    \<open>for every acceptor\<close> ranges over every deterministic closure, whatever its
    private state is, and not only over those this library builds.
  \<^item> After a panic the second component is the acceptor with the captured variables as
    the panicking call left them (what a caller that recovers would call next).
  \<^item> Two closures never share a captured variable in this model: each acceptor passed
    to a combinator is owned by that combinator alone.

  \<open>Branch\<close> and \<open>AssertAtMost\<close> take no part in the properties proved here and are not
  embedded.
\<close>

type_synonym rune = "32 word"

datatype 'e payload = NilDeref | IndexOutOfRange | Err 'e

datatype 'e outcome = Ret bool | Panic "'e payload"

codatatype 'e Acceptor =
  NilAcceptor
| Func "rune \<Rightarrow> 'e outcome \<times> 'e Acceptor"

text \<open>\<open>acc(rn)\<close>: calling a nil function value panics and changes nothing.\<close>

definition call :: "'e Acceptor \<Rightarrow> rune \<Rightarrow> 'e outcome \<times> 'e Acceptor" where
  "call acc rn =
     (case acc of
        NilAcceptor \<Rightarrow> (Panic NilDeref, NilAcceptor)
      | Func f \<Rightarrow> f rn)"

text \<open>
  A function literal of type \<open>Acceptor\<close>: \<open>body\<close> is its code, taking the current values
  of the captured variables and the rune, and returning the outcome and the new values
  of the captured variables.
\<close>

primcorec closure :: "('s \<Rightarrow> rune \<Rightarrow> 'e outcome \<times> 's) \<Rightarrow> 's \<Rightarrow> 'e Acceptor" where
  "closure body s = Func (\<lambda>rn. map_prod id (closure body) (body s rn))"

text \<open>
  Driving one acceptor instance with a stream of runes, one call per rune, in order.
  \<open>outcomes\<close> lists what each call did; the caller keeps calling after a rejection and
  after a panic, so what a caller sees that stops earlier is a prefix of the list.
\<close>

fun outcomes :: "'e Acceptor \<Rightarrow> rune list \<Rightarrow> 'e outcome list" where
  "outcomes acc [] = []"
| "outcomes acc (rn # rns) = (case call acc rn of (out, acc') \<Rightarrow> out # outcomes acc' rns)"

fun after :: "'e Acceptor \<Rightarrow> rune list \<Rightarrow> 'e Acceptor" where
  "after acc [] = acc"
| "after acc (rn # rns) = after (snd (call acc rn)) rns"

subsection \<open>Acc, All, None\<close>

text \<open>
  Modelled from the spec: \<open>unicode.RangeTable\<close>, \<open>unicode.Is\<close> and \<open>unicode.In\<close> belong
  to Go's standard library; the spec treats a character-class table as an opaque
  predicate provider, so a table is the predicate \<open>unicode.Is(table, _)\<close> (of a non-nil
  table).
\<close>

type_synonym RangeTable = "rune \<Rightarrow> bool"

definition unicode_Is :: "RangeTable \<Rightarrow> rune \<Rightarrow> bool" where
  "unicode_Is rangeTab rn = rangeTab rn"

fun unicode_In :: "rune \<Rightarrow> RangeTable list \<Rightarrow> bool" where
  "unicode_In rn [] = False"
| "unicode_In rn (inside # ranges) = (if unicode_Is inside rn then True else unicode_In rn ranges)"

text \<open>
  The dynamic type of the \<open>interface{}\<close> argument of \<open>Acc\<close>. A \<open>string\<close> is given by the
  runes that \<open>range\<close> yields on it. \<open>SOther\<close> stands for a value of any dynamic type the
  type switch has no case for (the nil interface value included); \<open>'o\<close> is that value.
\<close>

datatype ('e, 'o) spec =
  SAcceptor "'e Acceptor"
| SRune rune
| SRunes "rune list"
| SString "rune list"
| STable RangeTable
| STables "RangeTable list"
| SOther 'o

text \<open>\<^verbatim>\<open>for _, ex := range spec { if rn == ex { return true } }; return false\<close>\<close>

fun range_contains :: "rune \<Rightarrow> rune list \<Rightarrow> bool" where
  "range_contains rn [] = False"
| "range_contains rn (ex # rest) = (if rn = ex then True else range_contains rn rest)"

text \<open>A function literal that captures nothing it changes: the answer is \<open>p rn\<close>.\<close>

definition stateless :: "(rune \<Rightarrow> bool) \<Rightarrow> 'e Acceptor" where
  "stateless p = closure (\<lambda>(u::unit) rn. (Ret (p rn), u)) ()"

fun Acc :: "('e, 'o) spec \<Rightarrow> 'e Acceptor" where
  "Acc (SAcceptor spec) = spec"
| "Acc (SRune spec) = stateless (\<lambda>rn. rn = spec)"
| "Acc (SRunes spec) = stateless (\<lambda>rn. range_contains rn spec)"
| "Acc (SString spec) = stateless (\<lambda>rn. range_contains rn spec)"
| "Acc (STable spec) = stateless (\<lambda>rn. unicode_Is spec rn)"
| "Acc (STables spec) = stateless (\<lambda>rn. unicode_In rn spec)"
| "Acc (SOther spec) = NilAcceptor"

text \<open>The kinds of spec that the type switch of \<open>Acc\<close> has a case for.\<close>

fun recognized :: "('e, 'o) spec \<Rightarrow> bool" where
  "recognized (SOther spec) = False"
| "recognized spec = True"

definition All_acc :: "'e Acceptor" where
  "All_acc = stateless (\<lambda>rn. True)"

definition None_acc :: "'e Acceptor" where
  "None_acc = stateless (\<lambda>rn. False)"

subsection \<open>The type state, statify and the closures that keep an internal state\<close>

text \<open>
  The values of type \<open>state\<close> that \<open>FirstOf\<close> and \<open>AssertStart\<close> ever store in their
  variable \<open>internal\<close>, each with the variables it captures: nil, the closure built by
  \<open>statify(acc)\<close>, and the two function literals that initialise \<open>internal\<close>.
\<close>

datatype 'e state =
  nil_state
| statify "'e Acceptor"
| FirstOf_internal "'e Acceptor list"
| AssertStart_internal "'e Acceptor" 'e

text \<open>
  The loop of \<open>FirstOf\<close>'s initial state over \<open>accs\<close>: \<open>seen\<close> holds the acceptors already
  tried on this rune (each has been called once and rejected), the list argument those
  still to try. When an acceptor panics, \<open>internal\<close> is not assigned and stays the initial
  closure, over the acceptors as the calls left them.
\<close>

fun FirstOf_loop :: "rune \<Rightarrow> 'e Acceptor list \<Rightarrow> 'e Acceptor list \<Rightarrow> 'e outcome \<times> 'e state" where
  "FirstOf_loop rn seen [] = (Ret False, nil_state)"
| "FirstOf_loop rn seen (acc # rest) =
     (case call acc rn of
        (Ret True, acc') \<Rightarrow> (Ret True, statify acc')
      | (Ret False, acc') \<Rightarrow> FirstOf_loop rn (seen @ [acc']) rest
      | (Panic p, acc') \<Rightarrow> (Panic p, FirstOf_internal (seen @ acc' # rest)))"

text \<open>
  \<open>internal(rn)\<close>: the outcome and the value of the variable \<open>internal\<close> after
  \<^verbatim>\<open>out, internal = internal(rn)\<close>. On a normal return that is the returned state; on a
  panic the assignment does not happen.
\<close>

fun call_state :: "'e state \<Rightarrow> rune \<Rightarrow> 'e outcome \<times> 'e state" where
  "call_state nil_state rn = (Panic NilDeref, nil_state)"
| "call_state (statify acc) rn = (case call acc rn of (out, acc') \<Rightarrow> (out, statify acc'))"
| "call_state (FirstOf_internal accs) rn = FirstOf_loop rn [] accs"
| "call_state (AssertStart_internal acc err) rn =
     (case call acc rn of
        (Ret True, acc') \<Rightarrow> (Ret True, statify acc')
      | (Ret False, acc') \<Rightarrow> (Panic (Err err), AssertStart_internal acc' err)
      | (Panic p, acc') \<Rightarrow> (Panic p, AssertStart_internal acc' err))"

text \<open>\<^verbatim>\<open>func(rn rune) (out bool) { out, internal = internal(rn); return out }\<close>\<close>

definition with_internal :: "'e state \<Rightarrow> 'e Acceptor" where
  "with_internal internal = closure call_state internal"

definition FirstOf :: "'e Acceptor list \<Rightarrow> 'e Acceptor" where
  "FirstOf accs = with_internal (FirstOf_internal accs)"

definition AssertStart :: "'e Acceptor \<Rightarrow> 'e \<Rightarrow> 'e Acceptor" where
  "AssertStart acc err = with_internal (AssertStart_internal acc err)"

subsection \<open>Truncate, EndsBefore, EndsWith\<close>

text \<open>
  \<open>max\<close> and \<open>count\<close> are Go \<open>int\<close>s. \<open>count\<close> starts at 0 and is incremented only when
  \<open>count < max\<close>, so it never passes \<open>max\<close> and never wraps; unbounded integers model it
  exactly (\<open>max'\<close> is the parameter \<open>max\<close>). \<open>&&\<close> does not call \<open>acc\<close> when \<open>count < max\<close> fails.
\<close>

fun Truncate_body :: "int \<Rightarrow> int \<times> 'e Acceptor \<Rightarrow> rune \<Rightarrow> 'e outcome \<times> (int \<times> 'e Acceptor)" where
  "Truncate_body max' (count, acc) rn =
     (if count < max' then
        (case call acc rn of
           (Ret True, acc') \<Rightarrow> (Ret True, (count + 1, acc'))
         | (Ret False, acc') \<Rightarrow> (Ret False, (count, acc'))
         | (Panic p, acc') \<Rightarrow> (Panic p, (count, acc')))
      else (Ret False, (count, acc)))"

definition Truncate :: "int \<Rightarrow> 'e Acceptor \<Rightarrow> 'e Acceptor" where
  "Truncate max' acc = closure (Truncate_body max') (0, acc)"

fun EndsBefore_body :: "rune \<Rightarrow> 'e Acceptor \<Rightarrow> rune \<Rightarrow> 'e outcome \<times> 'e Acceptor" where
  "EndsBefore_body delim acc rn = (if rn = delim then (Ret False, acc) else call acc rn)"

definition EndsBefore :: "rune \<Rightarrow> 'e Acceptor \<Rightarrow> 'e Acceptor" where
  "EndsBefore delim acc = closure (EndsBefore_body delim) acc"

fun EndsWith_body :: "rune \<Rightarrow> bool \<times> 'e Acceptor \<Rightarrow> rune \<Rightarrow> 'e outcome \<times> (bool \<times> 'e Acceptor)" where
  "EndsWith_body delim (seen, acc) rn =
     (if seen then (Ret False, (seen, acc))
      else if rn = delim then (Ret True, (True, acc))
      else (case call acc rn of (out, acc') \<Rightarrow> (out, (seen, acc'))))"

definition EndsWith :: "rune \<Rightarrow> 'e Acceptor \<Rightarrow> 'e Acceptor" where
  "EndsWith delim acc = closure (EndsWith_body delim) (False, acc)"

subsection \<open>Chain and Skip\<close>

text \<open>
  \<^verbatim>\<open>for ; i != n; i++ { if accs[i](rn) { return true } }; return false\<close>
  with \<open>n = len(accs)\<close>. The cursor \<open>i\<close> is captured and keeps its value between calls;
  a call of \<open>accs[i]\<close> changes that element's own state. An index beyond the slice
  would be a run-time panic.
\<close>

function Chain_loop :: "rune \<Rightarrow> nat \<Rightarrow> 'e Acceptor list \<Rightarrow> 'e outcome \<times> (nat \<times> 'e Acceptor list)" where
  "Chain_loop rn i accs =
     (if i = length accs then (Ret False, (i, accs))
      else if length accs < i then (Panic IndexOutOfRange, (i, accs))
      else
        (case call (accs ! i) rn of
           (Ret True, acc') \<Rightarrow> (Ret True, (i, accs[i := acc']))
         | (Ret False, acc') \<Rightarrow> Chain_loop rn (Suc i) (accs[i := acc'])
         | (Panic p, acc') \<Rightarrow> (Panic p, (i, accs[i := acc']))))"
  by pat_completeness auto
termination
  by (relation "measure (\<lambda>(rn, i, accs). length accs - i)") auto

declare Chain_loop.simps [simp del]

fun Chain_body :: "nat \<times> 'e Acceptor list \<Rightarrow> rune \<Rightarrow> 'e outcome \<times> (nat \<times> 'e Acceptor list)" where
  "Chain_body (i, accs) rn = Chain_loop rn i accs"

definition Chain :: "'e Acceptor list \<Rightarrow> 'e Acceptor" where
  "Chain accs = closure Chain_body (0, accs)"

definition Skip :: "int \<Rightarrow> 'e Acceptor \<Rightarrow> 'e Acceptor" where
  "Skip skip acc = Chain [Truncate skip All_acc, acc]"

subsection \<open>The demonstration loop of main\<close>

text \<open>
  \<open>main\<close> ranges over the string \<open>src\<close>, calls the acceptor on each rune and stops at the
  first rejection, printing the index, \<open>src[:i+1]\<close> and \<open>src[i+1:]\<close>. The source string
  is ASCII, so every rune is one byte and the byte index \<open>i\<close> that \<open>range\<close> yields is the
  position in the list of characters.
\<close>

definition rune_of_char :: "char \<Rightarrow> rune" where
  "rune_of_char c = of_nat (of_char c)"

datatype 'e event =
  Accepted rune nat
| Rejected rune nat string string
| Aborted "'e payload"

fun demo_loop :: "'e Acceptor \<Rightarrow> string \<Rightarrow> nat \<Rightarrow> string \<Rightarrow> 'e event list" where
  "demo_loop acceptor src i [] = []"
| "demo_loop acceptor src i (c # cs) =
     (case call acceptor (rune_of_char c) of
        (Ret False, acceptor') \<Rightarrow>
          [Rejected (rune_of_char c) i (take (i + 1) src) (drop (i + 1) src)]
      | (Ret True, acceptor') \<Rightarrow> Accepted (rune_of_char c) i # demo_loop acceptor' src (i + 1) cs
      | (Panic p, acceptor') \<Rightarrow> [Aborted p])"

definition demo_src :: string where
  "demo_src = ''This is a demo.''"

definition demo :: "'e event list" where
  "demo = demo_loop (EndsBefore (rune_of_char CHR ''m'') All_acc) demo_src 0 demo_src"

subsection \<open>Observing a run\<close>

text \<open>The number of calls of a run that returned true.\<close>

definition accepted :: "'e outcome list \<Rightarrow> nat" where
  "accepted outs = length (filter (\<lambda>out. out = Ret True) outs)"

text \<open>
  The answers \<open>outs\<close> up to and including the first rejection, and a rejection for every
  later call.
\<close>

fun until_rejection :: "'e outcome list \<Rightarrow> 'e outcome list" where
  "until_rejection [] = []"
| "until_rejection (out # outs) =
     (if out = Ret False then replicate (Suc (length outs)) (Ret False)
      else out # until_rejection outs)"

text \<open>The captured variables of a function literal after it has been driven with a stream.\<close>

fun captured_after :: "('s \<Rightarrow> rune \<Rightarrow> 'e outcome \<times> 's) \<Rightarrow> 's \<Rightarrow> rune list \<Rightarrow> 's" where
  "captured_after body s [] = s"
| "captured_after body s (rn # rns) = captured_after body (snd (body s rn)) rns"

section \<open>Calling a closure\<close>

lemma call_closure:
  "call (closure body s) rn = (case body s rn of (out, s') \<Rightarrow> (out, closure body s'))"
  by (simp add: call_def closure.code split: prod.split)

lemma call_NilAcceptor: "call NilAcceptor rn = (Panic NilDeref, NilAcceptor)"
  by (simp add: call_def)

lemma call_stateless: "call (stateless p) rn = (Ret (p rn), stateless p)"
  by (simp add: stateless_def call_closure)

lemma outcomes_stateless: "outcomes (stateless p) rns = map (\<lambda>rn. Ret (p rn)) rns"
  by (induction rns) (simp_all add: call_stateless)

lemma length_outcomes: "length (outcomes acc rns) = length rns"
  by (induction rns arbitrary: acc) (simp_all split: prod.split)

lemma outcomes_append:
  "outcomes acc (rns @ rns') = outcomes acc rns @ outcomes (after acc rns) rns'"
  by (induction rns arbitrary: acc) (simp_all split: prod.split)

lemma last_outcomes: "last (outcomes acc (rns @ [rn])) = fst (call (after acc rns) rn)"
  by (simp add: outcomes_append split: prod.split)

lemma after_closure: "after (closure body s) rns = closure body (captured_after body s rns)"
  by (induction rns arbitrary: s) (simp_all add: call_closure split: prod.split)

lemma call_All_acc: "call All_acc rn = (Ret True, All_acc)"
  by (simp add: All_acc_def call_stateless)

lemma accepted_simps:
  "accepted [] = 0"
  "accepted (out # outs) = (if out = Ret True then Suc (accepted outs) else accepted outs)"
  by (simp_all add: accepted_def)

lemma accepted_replicate_False: "accepted (replicate n (Ret False)) = 0"
  by (simp add: accepted_def)

section \<open>Truncate\<close>

lemma call_Truncate_body:
  "call (closure (Truncate_body m) (count, acc)) rn =
     (if count < m then
        (case call acc rn of
           (Ret True, acc') \<Rightarrow> (Ret True, closure (Truncate_body m) (count + 1, acc'))
         | (Ret False, acc') \<Rightarrow> (Ret False, closure (Truncate_body m) (count, acc'))
         | (Panic p, acc') \<Rightarrow> (Panic p, closure (Truncate_body m) (count, acc')))
      else (Ret False, closure (Truncate_body m) (count, acc)))"
  by (simp add: call_closure split: prod.split outcome.split bool.split)

text \<open>Once the count has reached the ceiling, nothing is accepted and nothing changes.\<close>

lemma Truncate_ceiling:
  "m \<le> count \<Longrightarrow>
   outcomes (closure (Truncate_body m) (count, acc)) rns = replicate (length rns) (Ret False)"
  by (induction rns) (simp_all add: call_Truncate_body)

lemma Truncate_captured_ceiling:
  "m \<le> count \<Longrightarrow> captured_after (Truncate_body m) (count, acc) rns = (count, acc)"
  by (induction rns) simp_all

lemma Truncate_bound:
  "count \<le> m \<Longrightarrow>
   int (accepted (outcomes (closure (Truncate_body m) (count, acc)) rns)) \<le> m - count"
proof (induction rns arbitrary: count acc)
  case Nil
  then show ?case by (simp add: accepted_simps)
next
  case (Cons rn rns)
  show ?case
  proof (cases "count < m")
    case False
    then show ?thesis using Cons.prems
      by (simp add: Truncate_ceiling accepted_replicate_False del: outcomes.simps replicate.simps)
  next
    case True
    obtain out acc' where c: "call acc rn = (out, acc')" by (cases "call acc rn")
    show ?thesis
    proof (cases "out = Ret True")
      case True
      with \<open>count < m\<close> c Cons.IH [of "count + 1" acc'] show ?thesis
        by (simp add: call_Truncate_body accepted_simps)
    next
      case False
      with \<open>count < m\<close> c Cons.IH [of count acc'] show ?thesis
        by (cases out) (auto simp add: call_Truncate_body accepted_simps split: bool.split)
    qed
  qed
qed

text \<open>
  The captured \<open>count\<close> is the number of calls that returned true, and as long as it is
  below the ceiling the wrapped acceptor has been called on every rune of the stream.
\<close>

lemma Truncate_captured:
  "fst (captured_after (Truncate_body m) (count, acc) rns) =
     count + int (accepted (outcomes (closure (Truncate_body m) (count, acc)) rns))
   \<and> (fst (captured_after (Truncate_body m) (count, acc) rns) < m
          \<longrightarrow> snd (captured_after (Truncate_body m) (count, acc) rns) = after acc rns)"
proof (induction rns arbitrary: count acc)
  case Nil
  then show ?case by (simp add: accepted_simps)
next
  case (Cons rn rns)
  show ?case
  proof (cases "count < m")
    case False
    then show ?thesis
      by (simp add: Truncate_ceiling Truncate_captured_ceiling accepted_replicate_False
          del: outcomes.simps replicate.simps after.simps captured_after.simps)
  next
    case True
    obtain out acc' where c: "call acc rn = (out, acc')" by (cases "call acc rn")
    show ?thesis
    proof (cases "out = Ret True")
      case True
      with \<open>count < m\<close> c Cons.IH [of "count + 1" acc'] show ?thesis
        by (simp add: call_Truncate_body accepted_simps add.assoc)
    next
      case False
      with \<open>count < m\<close> c Cons.IH [of count acc'] show ?thesis
        by (cases out) (auto simp add: call_Truncate_body accepted_simps split: bool.split)
    qed
  qed
qed

lemma Truncate_after:
  "after (Truncate m acc) rns =
     closure (Truncate_body m)
       (int (accepted (outcomes (Truncate m acc) rns)),
        snd (captured_after (Truncate_body m) (0, acc) rns))"
proof -
  have "captured_after (Truncate_body m) (0, acc) rns =
      (int (accepted (outcomes (Truncate m acc) rns)),
       snd (captured_after (Truncate_body m) (0, acc) rns))"
    using Truncate_captured [of m 0 acc rns] by (simp add: Truncate_def prod_eq_iff)
  then show ?thesis
    by (simp add: Truncate_def after_closure)
qed

lemma Truncate_inner:
  "int (accepted (outcomes (Truncate m acc) rns)) < m \<Longrightarrow>
   snd (captured_after (Truncate_body m) (0, acc) rns) = after acc rns"
  using Truncate_captured [of m 0 acc rns] by (simp add: Truncate_def)

text \<open>
  C5. For every \<open>max \<ge> 0\<close>, every wrapped acceptor and every finite stream driven through
  one \<open>Truncate(max, acc)\<close> instance, at most \<open>max\<close> calls return true; and once \<open>max\<close>
  calls have returned true, every further call returns false, whatever \<open>acc\<close> would
  answer (it is not even called).
\<close>

theorem Truncate_accepts_at_most_max:
  "0 \<le> m \<Longrightarrow>
   int (accepted (outcomes (Truncate m acc) rns)) \<le> m \<and>
   (int (accepted (outcomes (Truncate m acc) rns)) = m \<longrightarrow>
      outcomes (Truncate m acc) (rns @ more) =
        outcomes (Truncate m acc) rns @ replicate (length more) (Ret False))"
proof
  assume "0 \<le> m"
  then show "int (accepted (outcomes (Truncate m acc) rns)) \<le> m"
    using Truncate_bound [of 0 m acc rns] by (simp add: Truncate_def)
next
  assume "0 \<le> m"
  show "int (accepted (outcomes (Truncate m acc) rns)) = m \<longrightarrow>
      outcomes (Truncate m acc) (rns @ more) =
        outcomes (Truncate m acc) rns @ replicate (length more) (Ret False)"
  proof
    assume full: "int (accepted (outcomes (Truncate m acc) rns)) = m"
    have "after (Truncate m acc) rns =
        closure (Truncate_body m) (m, snd (captured_after (Truncate_body m) (0, acc) rns))"
      using Truncate_after [of m acc rns] full by simp
    then show "outcomes (Truncate m acc) (rns @ more) =
        outcomes (Truncate m acc) rns @ replicate (length more) (Ret False)"
      by (simp add: outcomes_append Truncate_ceiling)
  qed
qed

text \<open>
  \<open>Truncate(1, All())\<close> driven with \<open>xy\<close> and then \<open>z\<close>: one call returns true, the
  ceiling is reached, and \<open>z\<close> is rejected although \<open>All()\<close> accepts it.
\<close>

theorem Truncate_accepts_at_most_max_witness:
  "(0::int) \<le> 1
   \<and> int (accepted (outcomes (Truncate 1 (All_acc :: unit Acceptor)) [0x78, 0x79])) \<le> 1
   \<and> int (accepted (outcomes (Truncate 1 (All_acc :: unit Acceptor)) [0x78, 0x79])) = 1
   \<and> outcomes (Truncate 1 (All_acc :: unit Acceptor)) ([0x78, 0x79] @ [0x7A])
       = [Ret True, Ret False] @ replicate (length [0x7A :: rune]) (Ret False)"
proof -
  have nonneg: "(0::int) \<le> 1" by simp
  show ?thesis
    using Truncate_accepts_at_most_max
      [OF nonneg, of "All_acc :: unit Acceptor" "[0x78, 0x79]" "[0x7A]"]
    by (simp add: Truncate_def call_closure call_All_acc accepted_def)
qed

text \<open>
  C2 as stated: after a call on which \<open>Truncate(max, acc)\<close> consults \<open>acc\<close> and \<open>acc\<close>
  rejects, every later call is rejected. It fails: \<open>Truncate(1, Acc('x'))\<close> driven with
  \<open>yx\<close> consults \<open>Acc('x')\<close> on \<open>y\<close>, which rejects, and then accepts \<open>x\<close>.
\<close>

theorem Truncate_rejection_latch_counterexample:
  "fst (call (Acc (SRune 0x78 :: (unit, unit) spec)) 0x79) = Ret False \<and>
   outcomes (Truncate 1 (Acc (SRune 0x78 :: (unit, unit) spec))) [0x79, 0x78]
     = [Ret False, Ret True]"
  by (simp add: Truncate_def call_closure call_stateless)

text \<open>
  C2, amended. For every \<open>max\<close>, every wrapped acceptor and every stream: a call of
  \<open>Truncate(max, acc)\<close> answers what \<open>acc\<close> answers for that character as long as fewer
  than \<open>max\<close> earlier calls have returned true, whether or not \<open>acc\<close> rejected before
  (a rejection by the wrapped acceptor is not remembered); once \<open>max\<close> calls have
  returned true it answers false (reaching the count ceiling is permanent).
\<close>

theorem Truncate_rejection_not_latched:
  "last (outcomes (Truncate m acc) (rns @ [rn])) =
     (if int (accepted (outcomes (Truncate m acc) rns)) < m
      then last (outcomes acc (rns @ [rn])) else Ret False)"
  by (auto simp add: last_outcomes Truncate_after Truncate_inner call_Truncate_body
      split: prod.split outcome.split bool.split)

section \<open>FirstOf\<close>

text \<open>
  Whenever the first call of a \<open>FirstOf\<close> instance returns false, the loop has run to
  its end and returned the nil state; every later call then calls nil.
\<close>

lemma FirstOf_loop_rejects:
  "fst (FirstOf_loop rn seen accs) = Ret False \<Longrightarrow> snd (FirstOf_loop rn seen accs) = nil_state"
  by (induction accs arbitrary: seen) (auto split: prod.splits outcome.splits bool.splits)

lemma outcomes_nil_state:
  "outcomes (closure call_state nil_state) rns = replicate (length rns) (Panic NilDeref)"
  by (induction rns) (simp_all add: call_closure)

lemma FirstOf_rejection_then_nil_call:
  "hd (outcomes (FirstOf accs) (rn # rns)) = Ret False \<Longrightarrow>
   outcomes (FirstOf accs) (rn # rns) = Ret False # replicate (length rns) (Panic NilDeref)"
  using FirstOf_loop_rejects [of rn "[]" accs]
  by (cases "FirstOf_loop rn [] accs")
    (simp add: FirstOf_def with_internal_def call_closure outcomes_nil_state)

text \<open>
  C1. \<open>FirstOf(Acc('a'))\<close> driven with \<open>bb\<close>: no component accepts the first \<open>b\<close>, the
  first call returns false and stores nil in \<open>internal\<close>; the second call calls that nil
  function value and panics with the run-time error instead of returning false.
\<close>

theorem FirstOf_second_call_panics:
  "outcomes (FirstOf [Acc (SRune 0x61 :: (unit, unit) spec)]) [0x62, 0x62]
     = [Ret False, Panic NilDeref]"
  by (simp add: FirstOf_def with_internal_def call_closure call_stateless)

section \<open>Chain\<close>

text \<open>
  C6. \<open>Chain(Truncate(1, Acc('x')), Acc('y'))\<close>: a fresh instance driven with \<open>xy\<close> answers
  true, true; with \<open>yy\<close> true, true (the first stage rejects \<open>y\<close> and the same character
  falls through to the second); with \<open>xx\<close> true, false.
\<close>

theorem Chain_x_then_y:
  "outcomes (Chain [Truncate 1 (Acc (SRune 0x78 :: (unit, unit) spec)),
                    Acc (SRune 0x79 :: (unit, unit) spec)]) [0x78, 0x79] = [Ret True, Ret True]
   \<and> outcomes (Chain [Truncate 1 (Acc (SRune 0x78 :: (unit, unit) spec)),
                    Acc (SRune 0x79 :: (unit, unit) spec)]) [0x79, 0x79] = [Ret True, Ret True]
   \<and> outcomes (Chain [Truncate 1 (Acc (SRune 0x78 :: (unit, unit) spec)),
                    Acc (SRune 0x79 :: (unit, unit) spec)]) [0x78, 0x78] = [Ret True, Ret False]"
  by (simp add: Chain_def Chain_loop.simps Truncate_def call_closure call_stateless)

section \<open>Skip\<close>

text \<open>A chain whose cursor is past the last acceptor rejects, and stays there.\<close>

lemma Chain_exhausted:
  "outcomes (closure Chain_body (length accs, accs)) rns = replicate (length rns) (Ret False)"
  by (induction rns) (simp_all add: call_closure Chain_loop.simps)

text \<open>
  With the cursor on the last of two acceptors, the chain answers as that acceptor does
  until it rejects; the rejection moves the cursor past the end.
\<close>

lemma Chain_last_stage:
  "outcomes (closure Chain_body (Suc 0, [first, acc])) rns = until_rejection (outcomes acc rns)"
proof (induction rns arbitrary: acc)
  case Nil
  show ?case by simp
next
  case (Cons rn rns)
  obtain out acc' where c: "call acc rn = (out, acc')" by (cases "call acc rn")
  show ?case
  proof (cases out)
    case (Ret b)
    show ?thesis
    proof (cases b)
      case True
      with Ret c Cons.IH [of acc'] show ?thesis
        by (simp add: call_closure Chain_loop.simps)
    next
      case False
      with Ret c Chain_exhausted [of "[first, acc']" rns] show ?thesis
        by (simp add: call_closure Chain_loop.simps length_outcomes)
    qed
  next
    case (Panic p)
    with c Cons.IH [of acc'] show ?thesis
      by (simp add: call_closure Chain_loop.simps)
  qed
qed

text \<open>
  Once \<open>Truncate(skip, All())\<close> has counted to its ceiling it rejects, so each call
  falls through to the second acceptor on the same rune.
\<close>

lemma Chain_first_stage_full:
  "m \<le> count \<Longrightarrow>
   outcomes (closure Chain_body (0, [closure (Truncate_body m) (count, All_acc), acc])) rns
     = until_rejection (outcomes acc rns)"
proof (cases rns)
  case Nil
  then show ?thesis by simp
next
  case (Cons rn rns')
  assume full: "m \<le> count"
  obtain out acc' where c: "call acc rn = (out, acc')" by (cases "call acc rn")
  show ?thesis
  proof (cases out)
    case (Ret b)
    show ?thesis
    proof (cases b)
      case True
      with Ret c full Cons
        Chain_last_stage [of "closure (Truncate_body m) (count, All_acc)" acc' rns']
      show ?thesis
        by (simp add: call_closure Chain_loop.simps)
    next
      case False
      with Ret c full Cons
        Chain_exhausted [of "[closure (Truncate_body m) (count, All_acc), acc']" rns']
      show ?thesis
        by (simp add: call_closure Chain_loop.simps length_outcomes)
    qed
  next
    case (Panic p)
    with c full Cons
      Chain_last_stage [of "closure (Truncate_body m) (count, All_acc)" acc' rns']
    show ?thesis
      by (simp add: call_closure Chain_loop.simps)
  qed
qed

lemma Skip_from_count:
  "outcomes (closure Chain_body (0, [closure (Truncate_body m) (count, All_acc), acc])) rns
     = replicate (min (nat (m - count)) (length rns)) (Ret True)
       @ until_rejection (outcomes acc (drop (nat (m - count)) rns))"
proof (induction rns arbitrary: count)
  case Nil
  show ?case by simp
next
  case (Cons rn rns)
  show ?case
  proof (cases "count < m")
    case False
    then show ?thesis
      using Chain_first_stage_full [of m count acc "rn # rns"] by (simp del: outcomes.simps)
  next
    case True
    then have n: "nat (m - count) = Suc (nat (m - (count + 1)))" by simp
    from True Cons.IH [of "count + 1"] show ?thesis
      unfolding n by (simp add: call_closure Chain_loop.simps call_All_acc)
  qed
qed

text \<open>
  C3 as stated: from the \<open>(n+1)\<close>-th character onward the answers of \<open>Skip(n, acc)\<close> are
  those of a fresh \<open>acc\<close> driven with the remaining characters. It fails:
  \<open>Skip(0, Acc('x'))\<close> driven with \<open>yx\<close> rejects both characters, while a fresh
  \<open>Acc('x')\<close> rejects \<open>y\<close> and accepts \<open>x\<close>.
\<close>

theorem Skip_after_rejection_counterexample:
  "outcomes (Skip 0 (Acc (SRune 0x78 :: (unit, unit) spec))) [0x79, 0x78]
     = [Ret False, Ret False]
   \<and> outcomes (Acc (SRune 0x78 :: (unit, unit) spec)) [0x79, 0x78] = [Ret False, Ret True]"
  by (simp add: Skip_def Chain_def Chain_loop.simps Truncate_def call_closure call_stateless)

text \<open>
  C3, amended. For every \<open>n\<close> (\<open>n \<ge> 0\<close> in particular) and every acceptor \<open>acc\<close>,
  \<open>Skip(n, acc)\<close> accepts its first \<open>n\<close> input characters whatever they are, and from
  the \<open>(n+1)\<close>-th character onward its answers are those of a fresh \<open>acc\<close> driven with
  the remaining characters, up to and including the first character that \<open>acc\<close>
  rejects; after that rejection every further call returns false.
\<close>

theorem Skip_then_until_rejection:
  "outcomes (Skip n acc) rns
     = replicate (min (nat n) (length rns)) (Ret True)
       @ until_rejection (outcomes acc (drop (nat n) rns))"
  using Skip_from_count [of n 0 acc rns] by (simp add: Skip_def Chain_def Truncate_def)

section \<open>EndsWith\<close>

lemma call_EndsWith_body:
  "call (closure (EndsWith_body delim) (seen, acc)) rn =
     (if seen then (Ret False, closure (EndsWith_body delim) (seen, acc))
      else if rn = delim then (Ret True, closure (EndsWith_body delim) (True, acc))
      else (case call acc rn of (out, acc') \<Rightarrow> (out, closure (EndsWith_body delim) (seen, acc'))))"
  by (simp add: call_closure split: prod.split)

lemma EndsWith_seen:
  "outcomes (closure (EndsWith_body delim) (True, acc)) rns = replicate (length rns) (Ret False)"
  by (induction rns) (simp_all add: call_EndsWith_body)

lemma EndsWith_not_seen:
  "delim \<notin> set pre \<Longrightarrow>
   outcomes (closure (EndsWith_body delim) (False, acc)) (pre @ delim # post)
     = outcomes acc pre @ Ret True # replicate (length post) (Ret False)"
  by (induction pre arbitrary: acc)
    (auto simp add: call_EndsWith_body EndsWith_seen split: prod.split)

text \<open>
  C7. For every delimiter, every acceptor \<open>acc\<close> and every stream driven through one
  \<open>EndsWith(delim, acc)\<close> instance: up to the first occurrence of \<open>delim\<close> the answers
  are those of \<open>acc\<close>; the first occurrence of \<open>delim\<close> is accepted; and every call after
  it returns false, for characters \<open>acc\<close> would accept and for further occurrences of
  \<open>delim\<close> alike, so the delimiter is accepted exactly once.
\<close>

theorem EndsWith_delimiter_once:
  "delim \<notin> set pre \<Longrightarrow>
   outcomes (EndsWith delim acc) (pre @ delim # post)
     = outcomes acc pre @ Ret True # replicate (length post) (Ret False)"
  by (simp add: EndsWith_def EndsWith_not_seen)

text \<open>\<open>EndsWith(';', Acc('a'))\<close> driven with \<open>ab;a;\<close>.\<close>

theorem EndsWith_delimiter_once_witness:
  "(0x3B :: rune) \<notin> set [0x61, 0x62]
   \<and> outcomes (EndsWith 0x3B (Acc (SRune 0x61 :: (unit, unit) spec)))
         ([0x61, 0x62] @ 0x3B # [0x61, 0x3B])
       = [Ret True, Ret False, Ret True, Ret False, Ret False]"
proof -
  have fresh: "(0x3B :: rune) \<notin> set [0x61, 0x62]" by simp
  show ?thesis
    using EndsWith_delimiter_once
      [OF fresh, of "Acc (SRune 0x61 :: (unit, unit) spec)" "[0x61, 0x3B]"]
    by (simp add: call_stateless)
qed

section \<open>AssertStart\<close>

lemma outcomes_statify:
  "outcomes (closure call_state (statify acc)) rns = outcomes acc rns"
  by (induction rns arbitrary: acc) (simp_all add: call_closure split: prod.split)

text \<open>A panic of the wrapped acceptor itself passes through the first call unchanged.\<close>

lemma AssertStart_acc_panics:
  "fst (call acc rn) = Panic p \<Longrightarrow> hd (outcomes (AssertStart acc err) (rn # rns)) = Panic p"
  by (cases "call acc rn")
    (simp_all add: AssertStart_def with_internal_def call_closure outcomes_statify)

text \<open>
  C8. For every acceptor \<open>acc\<close> and payload \<open>err\<close>, when \<open>acc\<close> answers the first character
  with the boolean \<open>b\<close>: the first call on \<open>AssertStart(acc, err)\<close> panics with \<open>err\<close>
  itself if and only if \<open>b\<close> is false; and if \<open>b\<close> is true, the first call returns true
  and the whole run answers exactly as \<open>acc\<close> does on the same stream, so the assertion
  cannot fire on a later call.
\<close>

theorem AssertStart_first_call:
  "fst (call acc rn) = Ret b \<Longrightarrow>
   (hd (outcomes (AssertStart acc err) (rn # rns)) = Panic (Err err)) = (\<not> b)
   \<and> (b \<longrightarrow> hd (outcomes (AssertStart acc err) (rn # rns)) = Ret True
          \<and> outcomes (AssertStart acc err) (rn # rns) = outcomes acc (rn # rns))"
  by (cases "call acc rn"; cases b)
    (simp_all add: AssertStart_def with_internal_def call_closure outcomes_statify)

text \<open>
  \<open>AssertStart(Acc('a'), err)\<close> driven with \<open>aba\<close> answers true, false, true; driven
  with \<open>ba\<close> its first call panics with \<open>err\<close>.
\<close>

theorem AssertStart_first_call_witness:
  "fst (call (Acc (SRune 0x61 :: (string, unit) spec)) 0x61) = Ret True
   \<and> outcomes (AssertStart (Acc (SRune 0x61 :: (string, unit) spec)) ''expected a'')
         [0x61, 0x62, 0x61]
       = [Ret True, Ret False, Ret True]
   \<and> fst (call (Acc (SRune 0x61 :: (string, unit) spec)) 0x62) = Ret False
   \<and> hd (outcomes (AssertStart (Acc (SRune 0x61 :: (string, unit) spec)) ''expected a'')
         [0x62, 0x61])
       = Panic (Err ''expected a'')"
proof -
  have accepts: "fst (call (Acc (SRune 0x61 :: (string, unit) spec)) 0x61) = Ret True"
    by (simp add: call_stateless)
  have rejects: "fst (call (Acc (SRune 0x61 :: (string, unit) spec)) 0x62) = Ret False"
    by (simp add: call_stateless)
  show ?thesis
    using AssertStart_first_call [OF accepts, of "''expected a''" "[0x62, 0x61]"]
      AssertStart_first_call [OF rejects, of "''expected a''" "[0x61]"]
    by (simp add: call_stateless)
qed

section \<open>Acc\<close>

text \<open>
  C9. For every spec whose kind the type switch of \<open>Acc\<close> does not recognise, \<open>Acc\<close>
  returns the nil acceptor (it has no path that panics); for a spec that is already an
  acceptor it returns that acceptor unchanged.
\<close>

theorem Acc_unrecognized:
  "(\<not> recognized spec \<longrightarrow> Acc spec = NilAcceptor) \<and> Acc (SAcceptor acc) = acc"
  by (cases spec) simp_all

text \<open>\<open>Acc(42)\<close>, an \<open>int\<close>, and \<open>Acc(All())\<close>.\<close>

theorem Acc_unrecognized_witness:
  "\<not> recognized (SOther (42::int) :: (unit, int) spec)
   \<and> Acc (SOther (42::int) :: (unit, int) spec) = NilAcceptor
   \<and> Acc (SAcceptor (All_acc :: unit Acceptor) :: (unit, int) spec) = All_acc"
  using Acc_unrecognized [of "SOther (42::int) :: (unit, int) spec" "All_acc :: unit Acceptor"]
  by simp

section \<open>EndsBefore and the demonstration\<close>

lemma call_EndsBefore:
  "call (EndsBefore delim acc) rn =
     (if rn = delim then (Ret False, EndsBefore delim acc)
      else (case call acc rn of (out, acc') \<Rightarrow> (out, EndsBefore delim acc')))"
  by (simp add: EndsBefore_def call_closure)

text \<open>
  C10. \<open>EndsBefore(delim, acc)\<close> keeps no state of its own: over an acceptor \<open>acc\<close>
  without state, whatever was called before, a call returns true if and only if the
  character is not \<open>delim\<close> and \<open>acc\<close> accepts it. In particular a character that \<open>acc\<close>
  accepts is accepted also after a call that rejected the delimiter.
\<close>

theorem EndsBefore_stateless:
  "outcomes (EndsBefore delim (stateless p)) rns = map (\<lambda>rn. Ret (rn \<noteq> delim \<and> p rn)) rns"
  by (induction rns) (simp_all add: call_EndsBefore call_stateless)

text \<open>
  C4 as stated: \<open>EndsBefore('m', All())\<close> driven with \<open>This is a demo.\<close> returns false at
  index 11, the first \<open>m\<close>. It fails: the character at index 11 is \<open>e\<close>, and the call
  on it returns true.
\<close>

theorem demo_index_11_counterexample:
  "outcomes (EndsBefore (rune_of_char CHR ''m'') (All_acc :: unit Acceptor))
       (map rune_of_char demo_src) ! 11 = Ret True
   \<and> demo_src ! 11 = CHR ''e''"
  by (simp add: demo_src_def rune_of_char_def call_EndsBefore call_All_acc)

text \<open>
  C4, amended. Driving \<open>EndsBefore('m', All())\<close> with the characters of
  \<open>This is a demo.\<close> in order returns true at indices 0 through 11 (the prefix
  \<open>This is a de\<close>) and false at index 12, which is the first \<open>m\<close>; the loop of \<open>main\<close>
  stops there after 12 acceptances, and reports the consumed string \<open>This is a dem\<close> and
  the remainder \<open>o.\<close>.
\<close>

theorem demo_rejects_at_index_12:
  "outcomes (EndsBefore (rune_of_char CHR ''m'') (All_acc :: unit Acceptor))
       (map rune_of_char demo_src)
     = [Ret True, Ret True, Ret True, Ret True, Ret True, Ret True, Ret True, Ret True,
        Ret True, Ret True, Ret True, Ret True, Ret False, Ret True, Ret True]
   \<and> take 12 demo_src = ''This is a de''
   \<and> demo_src ! 12 = CHR ''m''
   \<and> length (demo :: unit event list) = 13
   \<and> last (demo :: unit event list)
       = Rejected (rune_of_char CHR ''m'') 12 ''This is a dem'' ''o.''"
  by (simp add: demo_def demo_src_def rune_of_char_def call_EndsBefore call_All_acc)

end
